theory Spec2Isabelle
  imports Main "HOL-Library.Word"
begin

section \<open>The tensor-expression JIT engine, its instance cache and its name allocator\<close>

text \<open>
  A shallow embedding of the JIT translation unit of
  \<^verbatim>\<open>aten/src/ATen/cuda/detail/CUDAHooks.cpp\<close> (the part guarded by
  \<^verbatim>\<open>TORCH_ENABLE_LLVM\<close>, in its variant for LLVM 9 and later): the target machine
  builder, the registration of intrinsics, the engine, the allocator of unique function
  names and the cache of engines.

  Strings are \<^typ>\<open>string\<close>, \<^verbatim>\<open>c10::optional\<close> is \<^typ>\<open>'a option\<close>, native
  addresses are natural numbers, and a failing \<^verbatim>\<open>assertSuccess\<close> is the \<open>Inl\<close> branch
  of a sum.
\<close>

subsection \<open>What the code takes from the compiler library and from the host\<close>

type_synonym JITTargetAddress = nat

datatype CodeGenOpt = OptNone | Less | Default | Aggressive

datatype FPOpFusionMode = Fast | Standard | Strict

text \<open>
  The builder of a target machine. A field the code has not set is \<open>None\<close> (the CPU, the
  optimisation level, the fusion mode) or the empty list (the features), so that the
  model says nothing about the defaults the compiler library would fill in.
\<close>

record JITTargetMachineBuilder =
  TT :: string
  CPU :: "string option"
  Features :: "string list"
  CodeGenOptLevel :: "CodeGenOpt option"
  AllowFPOpFusion :: "FPOpFusionMode option"

datatype error =
    TargetMachineError
  | LLJITError
  | ProcessSymbolsError
  | DuplicateDefinition string
  | SymbolsNotFound string

text \<open>
  Everything the translation unit calls but does not define: the host queries of
  \<^verbatim>\<open>llvm::sys\<close>, the parsing of a feature string, the creation of the target machine
  and of the JIT (each of which may fail), the symbols of the hosting process, the
  mangling of names, and the two tables of native functions with the address of
  \<^verbatim>\<open>DispatchParallel\<close>.
\<close>

record extern =
  getProcessTriple :: string
  getHostCPUName :: string
  getHostCPUFeatures :: "(string \<times> bool) list"
  Split :: "string \<Rightarrow> string list"
  AddFeature :: "string \<Rightarrow> bool \<Rightarrow> string list \<Rightarrow> string list"
  createTargetMachine :: "JITTargetMachineBuilder \<Rightarrow> bool"
  createLLJIT :: "JITTargetMachineBuilder \<Rightarrow> bool"
  GetForCurrentProcess :: "(string \<rightharpoonup> JITTargetAddress) option"
  Mangle :: "string \<Rightarrow> string"
  getIntrinsicSymbols :: "(string \<times> JITTargetAddress) list"
  getNNCFunctionRegistry :: "(string \<times> JITTargetAddress) list"
  DispatchParallel :: JITTargetAddress

subsection \<open>The target machine builder\<close>

definition JTMB_new :: "string \<Rightarrow> JITTargetMachineBuilder" where
  "JTMB_new triple =
     \<lparr>TT = triple, CPU = None, Features = [], CodeGenOptLevel = None,
      AllowFPOpFusion = None\<rparr>"

definition setCPU :: "string \<Rightarrow> JITTargetMachineBuilder \<Rightarrow> JITTargetMachineBuilder" where
  "setCPU c JTMB = JTMB\<lparr>CPU := Some c\<rparr>"

definition addFeatures ::
  "extern \<Rightarrow> string list \<Rightarrow> JITTargetMachineBuilder \<Rightarrow> JITTargetMachineBuilder" where
  "addFeatures ex FeatureVec JTMB =
     JTMB\<lparr>Features := foldl (\<lambda>fs F. AddFeature ex F True fs) (Features JTMB) FeatureVec\<rparr>"

definition getHostSubtargetFeatures :: "extern \<Rightarrow> string list" where
  "getHostSubtargetFeatures ex =
     foldl (\<lambda>fs feature. AddFeature ex (fst feature) (snd feature) fs) []
       (getHostCPUFeatures ex)"

definition makeJTMBFromHost ::
  "extern \<Rightarrow> string option \<Rightarrow> string option \<Rightarrow> JITTargetMachineBuilder" where
  "makeJTMBFromHost ex cpu attrs =
     (let JTMB = JTMB_new (getProcessTriple ex);
          JTMB = setCPU (case cpu of Some c \<Rightarrow> c | None \<Rightarrow> getHostCPUName ex) JTMB
      in case attrs of
           Some a \<Rightarrow> addFeatures ex (Split ex a) JTMB
         | None \<Rightarrow> addFeatures ex (getHostSubtargetFeatures ex) JTMB)"

definition makeJTMBFromTriple ::
  "extern \<Rightarrow> string \<Rightarrow> string option \<Rightarrow> string option \<Rightarrow> JITTargetMachineBuilder" where
  "makeJTMBFromTriple ex triple cpu attrs =
     (let JTMB = JTMB_new triple;
          JTMB = (case cpu of Some c \<Rightarrow> setCPU c JTMB | None \<Rightarrow> JTMB)
      in case attrs of
           Some a \<Rightarrow> addFeatures ex (Split ex a) JTMB
         | None \<Rightarrow> JTMB)"

definition makeTargetMachineBuilder ::
  "extern \<Rightarrow> string option \<Rightarrow> string option \<Rightarrow> string option \<Rightarrow> JITTargetMachineBuilder"
  where
  "makeTargetMachineBuilder ex triple cpu attrs =
     (let JTMB = (case triple of
                    Some t \<Rightarrow> makeJTMBFromTriple ex t cpu attrs
                  | None \<Rightarrow> makeJTMBFromHost ex cpu attrs)
      in JTMB\<lparr>CodeGenOptLevel := Some Default, AllowFPOpFusion := Some Fast\<rparr>)"

subsection \<open>Registration of the intrinsics\<close>

text \<open>
  The symbol map that \<^verbatim>\<open>registerIntrinsics\<close> fills is a hash map whose \<^verbatim>\<open>insert\<close>
  keeps the entry already present under a key. The linkage namespace is a map from
  mangled names to addresses; defining a unit of absolute symbols in it is rejected,
  with the first offending name, when one of the names is already defined there (all
  symbols are registered with \<^verbatim>\<open>JITSymbolFlags::None\<close>, that is as strong
  definitions), and adds every symbol of the unit otherwise.
\<close>

type_synonym SymbolMap = "(string \<times> JITTargetAddress) list"

type_synonym JITDylib = "string \<rightharpoonup> JITTargetAddress"

definition SymbolMap_insert :: "string \<times> JITTargetAddress \<Rightarrow> SymbolMap \<Rightarrow> SymbolMap" where
  "SymbolMap_insert kv symbols =
     (if fst kv \<in> fst ` set symbols then symbols else symbols @ [kv])"

definition JITDylib_define :: "SymbolMap \<Rightarrow> JITDylib \<Rightarrow> error + JITDylib" where
  "JITDylib_define symbols JD =
     (case filter (\<lambda>kv. JD (fst kv) \<noteq> None) symbols of
        [] \<Rightarrow> Inr (JD ++ map_of symbols)
      | kv # _ \<Rightarrow> Inl (DuplicateDefinition (fst kv)))"

definition entry :: "extern \<Rightarrow> string \<Rightarrow> JITTargetAddress \<Rightarrow> string \<times> JITTargetAddress" where
  "entry ex name ptr = (Mangle ex name, ptr)"

fun intrinsics_loop ::
  "extern \<Rightarrow> (string \<times> JITTargetAddress) list \<Rightarrow> SymbolMap \<times> string set \<Rightarrow>
   SymbolMap \<times> string set" where
  "intrinsics_loop ex [] (symbols, intrinsics) = (symbols, intrinsics)"
| "intrinsics_loop ex (symb # symbs) (symbols, intrinsics) =
     intrinsics_loop ex symbs
       (SymbolMap_insert (entry ex (fst symb) (snd symb)) symbols,
        insert (fst symb) intrinsics)"

fun registry_loop ::
  "extern \<Rightarrow> (string \<times> JITTargetAddress) list \<Rightarrow> JITDylib \<Rightarrow> error + JITDylib" where
  "registry_loop ex [] JD = Inr JD"
| "registry_loop ex (kv # kvs) JD =
     (case JITDylib_define [entry ex (fst kv) (snd kv)] JD of
        Inl e \<Rightarrow> Inl e
      | Inr JD' \<Rightarrow> registry_loop ex kvs JD')"

definition registerIntrinsics ::
  "extern \<Rightarrow> JITDylib \<Rightarrow> string set \<Rightarrow> error + (JITDylib \<times> string set)" where
  "registerIntrinsics ex JD intrinsics =
     (case intrinsics_loop ex (getIntrinsicSymbols ex) ([], intrinsics) of
        (symbols, intrinsics') \<Rightarrow>
          (case JITDylib_define symbols JD of
             Inl e \<Rightarrow> Inl e
           | Inr JD1 \<Rightarrow>
               (case registry_loop ex (getNNCFunctionRegistry ex) JD1 of
                  Inl e \<Rightarrow> Inl e
                | Inr JD2 \<Rightarrow>
                    (case JITDylib_define
                            [entry ex ''DispatchParallel'' (DispatchParallel ex)] JD2 of
                       Inl e \<Rightarrow> Inl e
                     | Inr JD3 \<Rightarrow> Inr (JD3, intrinsics')))))"

subsection \<open>The engine\<close>

text \<open>
  The implementation object holds the resolved target, the main linkage namespace of
  the JIT with the generator over the symbols of the hosting process, and the set of
  intrinsic names. Modules are opaque and are not modelled.
\<close>

record PytorchLLVMJITImpl =
  TM :: JITTargetMachineBuilder
  JD :: JITDylib
  ProcSymbolsGenerator :: "string \<rightharpoonup> JITTargetAddress"
  intrinsics :: "string set"

definition PytorchLLVMJITImpl_new ::
  "extern \<Rightarrow> string option \<Rightarrow> string option \<Rightarrow> string option \<Rightarrow> error + PytorchLLVMJITImpl"
  where
  "PytorchLLVMJITImpl_new ex triple cpu attrs =
     (if \<not> createTargetMachine ex (makeTargetMachineBuilder ex triple cpu attrs)
      then Inl TargetMachineError
      else if \<not> createLLJIT ex (makeTargetMachineBuilder ex triple cpu attrs)
      then Inl LLJITError
      else case GetForCurrentProcess ex of
             None \<Rightarrow> Inl ProcessSymbolsError
           | Some gen \<Rightarrow>
               (case registerIntrinsics ex Map.empty {} of
                  Inl e \<Rightarrow> Inl e
                | Inr (JD', intrinsics') \<Rightarrow>
                    Inr \<lparr>TM = makeTargetMachineBuilder ex triple cpu attrs, JD = JD',
                         ProcSymbolsGenerator = gen, intrinsics = intrinsics'\<rparr>))"

definition Impl_findSymbol ::
  "extern \<Rightarrow> string \<Rightarrow> PytorchLLVMJITImpl \<Rightarrow> error + JITTargetAddress" where
  "Impl_findSymbol ex Name im =
     (case JD im (Mangle ex Name) of
        Some a \<Rightarrow> Inr a
      | None \<Rightarrow>
          (case ProcSymbolsGenerator im (Mangle ex Name) of
             Some a \<Rightarrow> Inr a
           | None \<Rightarrow> Inl (SymbolsNotFound Name)))"

definition Impl_hasSymbol :: "string \<Rightarrow> PytorchLLVMJITImpl \<Rightarrow> bool" where
  "Impl_hasSymbol Name im \<longleftrightarrow> Name \<in> intrinsics im"

text \<open>
  Modelled from the spec: the declaration of the table \<^verbatim>\<open>existing_functions_\<close> (in
  the header of the class, which is not part of the source) is missing; the spec calls
  it a counter keyed by the base name. The code adds one to a value of the table and
  passes the sum to \<^verbatim>\<open>std::to_string\<close>, so the value is a built-in integer: it is
  taken as the \<^verbatim>\<open>int\<close> of the language, 32 bits wide and read as signed, with the
  wrap-around of the compiled code written out. The table and its mutex are members of
  the engine: each engine has its own. (A name cannot end with an underscore here, so
  the members \<^verbatim>\<open>impl_\<close>, \<^verbatim>\<open>existing_functions_\<close> and \<^verbatim>\<open>jit_cache_\<close> lose
  theirs.)
\<close>

record PytorchLLVMJIT =
  impl :: PytorchLLVMJITImpl
  existing_functions :: "string \<rightharpoonup> 32 word"

definition PytorchLLVMJIT_new ::
  "extern \<Rightarrow> string option \<Rightarrow> string option \<Rightarrow> string option \<Rightarrow> error + PytorchLLVMJIT"
  where
  "PytorchLLVMJIT_new ex triple cpu attrs =
     (case PytorchLLVMJITImpl_new ex triple cpu attrs of
        Inl e \<Rightarrow> Inl e
      | Inr im \<Rightarrow> Inr \<lparr>impl = im, existing_functions = Map.empty\<rparr>)"

definition findSymbol :: "extern \<Rightarrow> string \<Rightarrow> PytorchLLVMJIT \<Rightarrow> error + JITTargetAddress" where
  "findSymbol ex Name jit = Impl_findSymbol ex Name (impl jit)"

definition hasSymbol :: "string \<Rightarrow> PytorchLLVMJIT \<Rightarrow> bool" where
  "hasSymbol Name jit = Impl_hasSymbol Name (impl jit)"

definition getTargetMachine :: "PytorchLLVMJIT \<Rightarrow> JITTargetMachineBuilder" where
  "getTargetMachine jit = TM (impl jit)"

subsection \<open>Unique function names\<close>

text \<open>\<^verbatim>\<open>std::to_string\<close> on an integer: its decimal digits, after a minus sign when negative.\<close>

definition digit_char :: "nat \<Rightarrow> char" where
  "digit_char d = ''0123456789'' ! d"

fun digits :: "nat \<Rightarrow> string" where
  "digits n = (if n < 10 then [digit_char n] else digits (n div 10) @ [digit_char (n mod 10)])"

definition to_string :: "int \<Rightarrow> string" where
  "to_string i = (if i < 0 then CHR ''-'' # digits (nat (- i)) else digits (nat i))"

text \<open>
  The body runs under the engine's mutex, so a call is one step from the table before
  to the table after. The iterator \<^verbatim>\<open>it\<close> that \<^verbatim>\<open>find\<close> returns points at the
  entry of the name inside the table: it is modelled by the key, and
  \<^verbatim>\<open>it->second\<close> reads the entry of that key in the table as it is at the moment of
  the read. The code reads through \<^verbatim>\<open>it\<close> only where the entry exists.
\<close>

definition it_second :: "(string \<rightharpoonup> 32 word) \<Rightarrow> string \<Rightarrow> 32 word" where
  "it_second table it = (case table it of Some c \<Rightarrow> c | None \<Rightarrow> 0)"

definition getUniqueFunctionName :: "string \<Rightarrow> PytorchLLVMJIT \<Rightarrow> string \<times> PytorchLLVMJIT" where
  "getUniqueFunctionName name jit =
     (let it = name
      in case existing_functions jit it of
           None \<Rightarrow> (name, jit\<lparr>existing_functions := (existing_functions jit)(name \<mapsto> 0)\<rparr>)
         | Some _ \<Rightarrow>
             (let jit1 = jit\<lparr>existing_functions :=
                              (existing_functions jit)
                                (name \<mapsto> it_second (existing_functions jit) it + 1)\<rparr>;
                  unique_name =
                    name @ ''_'' @
                    to_string (sint (it_second (existing_functions jit1) it + 1))
              in (unique_name, jit1)))"

text \<open>The names returned by a sequence of calls on one engine, in the order of the calls.\<close>

fun unique_names :: "string list \<Rightarrow> PytorchLLVMJIT \<Rightarrow> string list" where
  "unique_names [] jit = []"
| "unique_names (name # names) jit =
     (case getUniqueFunctionName name jit of
        (unique_name, jit') \<Rightarrow> unique_name # unique_names names jit')"

subsection \<open>The cache of engines\<close>

definition getCacheKey :: "string option \<Rightarrow> string option \<Rightarrow> string option \<Rightarrow> string" where
  "getCacheKey triple cpu attrs =
     ''triple:'' @ (case triple of Some t \<Rightarrow> t | None \<Rightarrow> '''') @
     ''cpu:'' @ (case cpu of Some c \<Rightarrow> c | None \<Rightarrow> '''') @
     ''attrs:'' @ (case attrs of Some a \<Rightarrow> a | None \<Rightarrow> '''')"

text \<open>
  The process-wide state of the cache: the engines built so far, which are never
  destroyed, and the table from keys to engines. A pointer to an engine is its index in
  \<open>engines\<close>; a new engine gets an address that no live engine has.
\<close>

record cache_state =
  engines :: "PytorchLLVMJIT list"
  jit_cache :: "string \<rightharpoonup> nat"

definition cache_init :: cache_state where
  "cache_init = \<lparr>engines = [], jit_cache = Map.empty\<rparr>"

definition getPytorchLLVMJITInstance ::
  "extern \<Rightarrow> string option \<Rightarrow> string option \<Rightarrow> string option \<Rightarrow> cache_state \<Rightarrow>
   (error + nat) \<times> cache_state" where
  "getPytorchLLVMJITInstance ex triple cpu attrs st =
     (let cacheKey = getCacheKey triple cpu attrs
      in case jit_cache st cacheKey of
           Some p \<Rightarrow> (Inr p, st)
         | None \<Rightarrow>
             (case PytorchLLVMJIT_new ex triple cpu attrs of
                Inl e \<Rightarrow> (Inl e, st)
              | Inr jit \<Rightarrow>
                  (Inr (length (engines st)),
                   st\<lparr>engines := engines st @ [jit],
                      jit_cache := (jit_cache st)(cacheKey \<mapsto> length (engines st))\<rparr>)))"

text \<open>A Target Descriptor, and the results of a sequence of requests to the cache.\<close>

type_synonym descriptor = "string option \<times> string option \<times> string option"

definition cache_key :: "descriptor \<Rightarrow> string" where
  "cache_key d = (case d of (triple, cpu, attrs) \<Rightarrow> getCacheKey triple cpu attrs)"

definition get_instance :: "extern \<Rightarrow> descriptor \<Rightarrow> cache_state \<Rightarrow> (error + nat) \<times> cache_state"
  where
  "get_instance ex d st =
     (case d of (triple, cpu, attrs) \<Rightarrow> getPytorchLLVMJITInstance ex triple cpu attrs st)"

fun get_instances :: "extern \<Rightarrow> descriptor list \<Rightarrow> cache_state \<Rightarrow> (error + nat) list" where
  "get_instances ex [] st = []"
| "get_instances ex (d # ds) st =
     (case get_instance ex d st of (r, st') \<Rightarrow> r # get_instances ex ds st')"

text \<open>
  A caller in the process: it asks the cache for the engine of a descriptor and asks
  that engine for a unique name. The pointer the cache returns is the address of an
  engine of the process, which the call updates in place.
\<close>

definition instance_unique_name ::
  "extern \<Rightarrow> descriptor \<Rightarrow> string \<Rightarrow> cache_state \<Rightarrow> (error + string) \<times> cache_state" where
  "instance_unique_name ex d name st =
     (case get_instance ex d st of
        (Inl e, st') \<Rightarrow> (Inl e, st')
      | (Inr p, st') \<Rightarrow>
          (case getUniqueFunctionName name (engines st' ! p) of
             (unique_name, jit') \<Rightarrow>
               (Inr unique_name, st'\<lparr>engines := (engines st')[p := jit']\<rparr>)))"

fun instance_unique_names ::
  "extern \<Rightarrow> (descriptor \<times> string) list \<Rightarrow> cache_state \<Rightarrow> (error + string) list" where
  "instance_unique_names ex [] st = []"
| "instance_unique_names ex (c # cs) st =
     (case instance_unique_name ex (fst c) (snd c) st of
        (r, st') \<Rightarrow> r # instance_unique_names ex cs st')"

subsection \<open>The spec's wording of the names and of the key\<close>

text \<open>
  The name the spec promises for a base: the base itself for the first call, and the
  base with the suffix \<open>_n\<close> for the \<open>n\<close>-th call after it.
\<close>

definition name_after :: "string \<Rightarrow> nat \<Rightarrow> string" where
  "name_after b n = (if n = 0 then b else b @ ''_'' @ to_string (int n))"

text \<open>The spec's encoding of a descriptor: each field, or the empty string when absent.\<close>

definition or_empty :: "string option \<Rightarrow> string" where
  "or_empty field = (case field of None \<Rightarrow> '''' | Some s \<Rightarrow> s)"

definition spec_key :: "string option \<Rightarrow> string option \<Rightarrow> string option \<Rightarrow> string" where
  "spec_key triple cpu attrs =
     concat [''triple:'', or_empty triple, ''cpu:'', or_empty cpu, ''attrs:'', or_empty attrs]"

subsection \<open>Notions used in the statements\<close>

text \<open>
  The features a builder holds after a list of feature strings has been added to an
  empty one: the host-detected features, or the pieces of a supplied feature string.
\<close>

definition add_all :: "extern \<Rightarrow> string list \<Rightarrow> string list" where
  "add_all ex FeatureVec = foldl (\<lambda>fs F. AddFeature ex F True fs) [] FeatureVec"

text \<open>
  The registrations in the order the code makes them, under their mangled names: the
  static list first, then the backend registry followed by \<^verbatim>\<open>DispatchParallel\<close>,
  each of the latter defined on its own. The late names are fresh when no two of them
  are equal and none of them is a name of the static list.
\<close>

definition static_entries :: "extern \<Rightarrow> SymbolMap" where
  "static_entries ex = map (\<lambda>s. entry ex (fst s) (snd s)) (getIntrinsicSymbols ex)"

definition late_entries :: "extern \<Rightarrow> SymbolMap" where
  "late_entries ex =
     map (\<lambda>kv. entry ex (fst kv) (snd kv))
       (getNNCFunctionRegistry ex @ [(''DispatchParallel'', DispatchParallel ex)])"

definition late_names_fresh :: "extern \<Rightarrow> bool" where
  "late_names_fresh ex \<longleftrightarrow>
     distinct (map fst (late_entries ex)) \<and>
     list_all (\<lambda>n. n \<notin> set (map fst (static_entries ex))) (map fst (late_entries ex))"

text \<open>
  The name a table returns for a base that has had \<open>n\<close> calls before: the base itself
  when \<open>n\<close> is zero, and otherwise the base with the suffix that renders \<open>n + 1\<close> as a
  signed 32-bit integer.
\<close>

definition returned_name :: "string \<Rightarrow> nat \<Rightarrow> string" where
  "returned_name b n =
     (if n = 0 then b else b @ ''_'' @ to_string (sint (word_of_nat (n + 1) :: 32 word)))"

text \<open>Building an engine for the host's own target and resolving a name in it.\<close>

definition engine_findSymbol :: "extern \<Rightarrow> string \<Rightarrow> error + JITTargetAddress" where
  "engine_findSymbol ex Name =
     (case PytorchLLVMJIT_new ex None None None of
        Inl e \<Rightarrow> Inl e
      | Inr jit \<Rightarrow> findSymbol ex Name jit)"

subsection \<open>A host to run the model on\<close>

text \<open>
  A small Linux host, used where a statement is evaluated at a concrete input: feature
  strings are split at commas (empty pieces dropped), a feature without a sign gets
  one, names are mangled without a prefix, and only two triples have a target.
\<close>

fun split_commas :: "string \<Rightarrow> string \<Rightarrow> string list" where
  "split_commas cur [] = (if cur = [] then [] else [cur])"
| "split_commas cur (c # cs) =
     (if c = CHR '','' then (if cur = [] then [] else [cur]) @ split_commas [] cs
      else split_commas (cur @ [c]) cs)"

definition add_feature :: "string \<Rightarrow> bool \<Rightarrow> string list \<Rightarrow> string list" where
  "add_feature s enable fs =
     (case s of
        [] \<Rightarrow> fs
      | c # _ \<Rightarrow>
          fs @ [if c = CHR ''+'' \<or> c = CHR ''-'' then s
                else (if enable then ''+'' else ''-'') @ s])"

definition linux_host :: extern where
  "linux_host =
     \<lparr>getProcessTriple = ''x86_64-unknown-linux-gnu'',
      getHostCPUName = ''skylake'',
      getHostCPUFeatures = [(''avx2'', True), (''sse4a'', False)],
      Split = split_commas [],
      AddFeature = add_feature,
      createTargetMachine =
        (\<lambda>JTMB. TT JTMB = ''x86_64-unknown-linux-gnu'' \<or> TT JTMB = ''aarch64-unknown-linux-gnu''),
      createLLJIT = (\<lambda>JTMB. True),
      GetForCurrentProcess = Some [''malloc'' \<mapsto> 4096],
      Mangle = (\<lambda>name. name),
      getIntrinsicSymbols = [(''log10f'', 100), (''expf'', 108)],
      getNNCFunctionRegistry = [(''nnc_aten_conv2d'', 200)],
      DispatchParallel = 300\<rparr>"

definition fresh_engine :: PytorchLLVMJIT where
  "fresh_engine =
     \<lparr>impl = \<lparr>TM = makeTargetMachineBuilder linux_host None None None,
              JD = [''log10f'' \<mapsto> 100, ''expf'' \<mapsto> 108, ''nnc_aten_conv2d'' \<mapsto> 200,
                    ''DispatchParallel'' \<mapsto> 300],
              ProcSymbolsGenerator = [''malloc'' \<mapsto> 4096],
              intrinsics = {''log10f'', ''expf''}\<rparr>,
      existing_functions = Map.empty\<rparr>"

text \<open>
  Two variants of the host: one whose static list names \<open>expf\<close> twice, and one
  whose backend registry names \<open>expf\<close>, which the static list names too.
\<close>

definition host_repeated_intrinsic :: extern where
  "host_repeated_intrinsic = linux_host\<lparr>getIntrinsicSymbols := [(''expf'', 100), (''expf'', 108)]\<rparr>"

definition host_shared_name :: extern where
  "host_shared_name = linux_host\<lparr>getNNCFunctionRegistry := [(''expf'', 200)]\<rparr>"

subsection \<open>Bookkeeping for the proofs\<close>

text \<open>
  A table agrees with a count of calls per base when a base without calls has no entry
  and a base with \<open>n + 1\<close> calls has the entry \<open>n\<close>, as a 32-bit value.
\<close>

definition table_matches :: "PytorchLLVMJIT \<Rightarrow> (string \<Rightarrow> nat) \<Rightarrow> bool" where
  "table_matches jit f \<longleftrightarrow>
     (\<forall>b. existing_functions jit b =
        (if f b = 0 then None else Some (word_of_nat (f b - 1))))"

text \<open>
  What every state of the cache satisfies: a cached pointer is the address of an engine
  that exists, and no two keys share a pointer.
\<close>

definition cache_inv :: "cache_state \<Rightarrow> bool" where
  "cache_inv st \<longleftrightarrow>
     (\<forall>k p. jit_cache st k = Some p \<longrightarrow> p < length (engines st)) \<and>
     (\<forall>k k' p. jit_cache st k = Some p \<longrightarrow> jit_cache st k' = Some p \<longrightarrow> k = k')"

section \<open>Properties\<close>

subsection \<open>Decimal rendering\<close>

declare digits.simps [simp del]

lemma digit_char_inj: "a < 10 \<Longrightarrow> b < 10 \<Longrightarrow> digit_char a = digit_char b \<Longrightarrow> a = b"
  unfolding digit_char_def
  by (subst (asm) nth_eq_iff_index_eq) simp_all

lemma digits_not_Nil: "digits n \<noteq> []"
  by (subst digits.simps) simp

lemma length_digits_ge10: "10 \<le> n \<Longrightarrow> 2 \<le> length (digits n)"
  using digits_not_Nil [of "n div 10"]
  by (subst digits.simps) (simp add: Suc_le_eq)

lemma length_digits_lt10: "n < 10 \<Longrightarrow> length (digits n) = 1"
  by (subst digits.simps) simp

lemma digits_inj: "digits n = digits m \<Longrightarrow> n = m"
proof (induction n arbitrary: m rule: digits.induct)
  case (1 n)
  show ?case
  proof (cases "n < 10")
    case True
    have "m < 10"
    proof (rule ccontr)
      assume "\<not> m < 10"
      then have "2 \<le> length (digits m)" by (simp add: length_digits_ge10)
      moreover from True have "length (digits n) = 1" by (rule length_digits_lt10)
      moreover from "1.prems" have "length (digits n) = length (digits m)" by simp
      ultimately show False by linarith
    qed
    with True "1.prems" show ?thesis
      by (simp add: digits.simps [of n] digits.simps [of m] digit_char_inj)
  next
    case False
    have m: "\<not> m < 10"
    proof
      assume "m < 10"
      then have "length (digits m) = 1" by (rule length_digits_lt10)
      moreover from False have "2 \<le> length (digits n)" by (simp add: length_digits_ge10)
      moreover from "1.prems" have "length (digits n) = length (digits m)" by simp
      ultimately show False by linarith
    qed
    from "1.prems" False m
    have eq: "digits (n div 10) = digits (m div 10)"
      and d: "digit_char (n mod 10) = digit_char (m mod 10)"
      by (simp_all add: digits.simps [of n] digits.simps [of m])
    from "1.IH" [OF False eq] have "n div 10 = m div 10" .
    moreover from d have "n mod 10 = m mod 10" by (simp add: digit_char_inj)
    ultimately show ?thesis by (metis div_mult_mod_eq)
  qed
qed

lemma digit_char_not_minus: "d < 10 \<Longrightarrow> digit_char d \<noteq> CHR ''-''"
proof -
  assume "d < 10"
  then have "digit_char d \<in> set ''0123456789''"
    unfolding digit_char_def by (intro nth_mem) simp
  then show ?thesis by auto
qed

lemma hd_digits_not_minus: "hd (digits n) \<noteq> CHR ''-''"
proof (induction n rule: digits.induct)
  case (1 n)
  show ?case
  proof (cases "n < 10")
    case True
    then show ?thesis by (simp add: digits.simps [of n] digit_char_not_minus)
  next
    case False
    with "1.IH" show ?thesis
      by (simp add: digits.simps [of n] digits_not_Nil)
  qed
qed

lemma to_string_inj: "to_string i = to_string j \<Longrightarrow> i = j"
proof -
  assume eq: "to_string i = to_string j"
  have neg: False if "to_string a = to_string b" "a < 0" "\<not> b < 0" for a b
  proof -
    from that have "CHR ''-'' # digits (nat (- a)) = digits (nat b)"
      by (simp add: to_string_def)
    then have "hd (digits (nat b)) = CHR ''-''" by (metis list.sel(1))
    then show False by (simp add: hd_digits_not_minus)
  qed
  show ?thesis
  proof (cases "i < 0")
    case True
    show ?thesis
    proof (cases "j < 0")
      case j: True
      with True eq have "nat (- i) = nat (- j)"
        by (simp add: to_string_def digits_inj)
      with True j show ?thesis by simp
    next
      case False
      with neg [OF eq True] show ?thesis by simp
    qed
  next
    case False
    show ?thesis
    proof (cases "j < 0")
      case True
      with neg [OF eq [symmetric] True] False show ?thesis by simp
    next
      case j: False
      with False eq have "nat i = nat j"
        by (simp add: to_string_def digits_inj)
      with False j show ?thesis by simp
    qed
  qed
qed


subsection \<open>The allocator of unique names\<close>

lemma to_string_small:
  "to_string 1 = ''1''" "to_string 2 = ''2''" "to_string 3 = ''3''"
  by (simp_all add: to_string_def digits.simps digit_char_def)

lemma getUniqueFunctionName_first:
  assumes "existing_functions jit b = None"
  shows "getUniqueFunctionName b jit =
    (b, jit\<lparr>existing_functions := (existing_functions jit)(b \<mapsto> 0)\<rparr>)"
  using assms by (simp add: getUniqueFunctionName_def)

lemma getUniqueFunctionName_again:
  assumes "existing_functions jit b = Some c"
  shows "getUniqueFunctionName b jit =
    (b @ ''_'' @ to_string (sint (c + 1 + 1)),
     jit\<lparr>existing_functions := (existing_functions jit)(b \<mapsto> c + 1)\<rparr>)"
  using assms by (simp add: getUniqueFunctionName_def it_second_def Let_def)

lemma getUniqueFunctionName_wraps:
  assumes "existing_functions jit ''k'' = Some 2147483646"
  shows "fst (getUniqueFunctionName ''k'' jit) = ''k_-2147483648''"
proof -
  have "sint (2147483646 + 1 + 1 :: 32 word) = - 2147483648" by simp
  moreover have "to_string (- 2147483648) = ''-2147483648''"
    by (simp add: to_string_def digits.simps digit_char_def)
  ultimately show ?thesis
    by (simp only: getUniqueFunctionName_again [OF assms] fst_conv) simp
qed

lemma getUniqueFunctionName_step:
  assumes "table_matches jit f" and "getUniqueFunctionName b jit = (u, jit')"
  shows "u = returned_name b (f b) \<and> table_matches jit' (f(b := f b + 1))"
proof (cases "f b = 0")
  case True
  with assms(1) have none: "existing_functions jit b = None"
    by (simp add: table_matches_def)
  with assms(2) have u: "u = b"
    and t: "existing_functions jit' = (existing_functions jit)(b \<mapsto> 0)"
    by (auto simp: getUniqueFunctionName_first)
  from u True have "u = returned_name b (f b)" by (simp add: returned_name_def)
  moreover from t assms(1) True have "table_matches jit' (f(b := f b + 1))"
    by (simp add: table_matches_def)
  ultimately show ?thesis by blast
next
  case False
  then obtain n where n: "f b = Suc n" by (cases "f b") auto
  with assms(1) have some: "existing_functions jit b = Some (word_of_nat n)"
    by (simp add: table_matches_def)
  have w1: "(word_of_nat n :: 32 word) + 1 = word_of_nat (Suc n)" by simp
  have w2: "(word_of_nat n :: 32 word) + 1 + 1 = word_of_nat (Suc n + 1)" by simp
  from some assms(2) have u: "u = b @ ''_'' @ to_string (sint ((word_of_nat n :: 32 word) + 1 + 1))"
    and t: "existing_functions jit' = (existing_functions jit)(b \<mapsto> word_of_nat n + 1)"
    by (auto simp: getUniqueFunctionName_again)
  from u n have "u = returned_name b (f b)"
    unfolding w2 by (simp add: returned_name_def)
  moreover from t assms(1) n have "table_matches jit' (f(b := f b + 1))"
    unfolding w1 by (simp add: table_matches_def)
  ultimately show ?thesis by blast
qed

lemma unique_names_length: "length (unique_names bs jit) = length bs"
  by (induction bs arbitrary: jit) (auto split: prod.splits)

lemma unique_names_nth:
  "table_matches jit f \<Longrightarrow> i < length bs \<Longrightarrow>
   unique_names bs jit ! i =
     returned_name (bs ! i) (f (bs ! i) + count_list (take i bs) (bs ! i))"
proof (induction bs arbitrary: jit f i)
  case Nil
  then show ?case by simp
next
  case (Cons b bs)
  obtain u jit' where step: "getUniqueFunctionName b jit = (u, jit')"
    by (cases "getUniqueFunctionName b jit")
  from getUniqueFunctionName_step [OF Cons.prems(1) step]
  have u: "u = returned_name b (f b)" and m: "table_matches jit' (f(b := f b + 1))"
    by blast+
  show ?case
  proof (cases i)
    case 0
    with step u show ?thesis by simp
  next
    case (Suc k)
    with Cons.prems have k: "k < length bs" by simp
    from Cons.IH [OF m k] Suc step show ?thesis by simp
  qed
qed

lemma empty_table_matches:
  "existing_functions jit = Map.empty \<Longrightarrow> table_matches jit (\<lambda>b. 0)"
  by (simp add: table_matches_def)

lemma unique_names_nth_fresh:
  assumes "existing_functions jit = Map.empty" and "i < length bs"
  shows "unique_names bs jit ! i =
     returned_name (bs ! i) (count_list (take i bs) (bs ! i))"
  using unique_names_nth [OF empty_table_matches [OF assms(1)] assms(2)] by simp

lemma new_engine_table:
  "PytorchLLVMJIT_new ex triple cpu attrs = Inr jit \<Longrightarrow> existing_functions jit = Map.empty"
  by (auto simp: PytorchLLVMJIT_new_def split: sum.splits)

lemma empty_table_evaluation:
  assumes "existing_functions jit = Map.empty"
  shows "unique_names [''kernel'', ''kernel'', ''kernel'', ''other''] jit =
           [''kernel'', ''kernel_2'', ''kernel_3'', ''other'']"
    and "unique_names [''kernel'', ''kernel'', ''kernel_1''] jit =
           [''kernel'', ''kernel_2'', ''kernel_1'']"
    and "unique_names [''kernel'', ''kernel'', ''kernel_2''] jit =
           [''kernel'', ''kernel_2'', ''kernel_2'']"
  using assms
  by (simp_all add: getUniqueFunctionName_def it_second_def Let_def to_string_small)

text \<open>
  Claim C4 does not hold of the code. On an engine whose table is empty, as it is after
  construction, the first call for a base returns the base, but the \<open>n\<close>-th call after
  it returns the base with the suffix \<open>_(n+1)\<close>: the suffix is read through the
  iterator after the entry has been incremented. Three calls with \<open>kernel\<close> followed
  by one with \<open>other\<close> return \<open>kernel\<close>, \<open>kernel_2\<close>, \<open>kernel_3\<close>, \<open>other\<close>,
  where the spec promises \<open>kernel\<close>, \<open>kernel_1\<close>, \<open>kernel_2\<close>, \<open>other\<close>.
\<close>

theorem unique_names_sequence:
  assumes "existing_functions jit = Map.empty"
  shows "(\<forall>i<length bs. unique_names bs jit ! i =
            returned_name (bs ! i) (count_list (take i bs) (bs ! i))) \<and>
         unique_names [''kernel'', ''kernel'', ''kernel'', ''other''] jit =
           [''kernel'', ''kernel_2'', ''kernel_3'', ''other''] \<and>
         map (\<lambda>n. name_after ''kernel'' n) [0, 1, 2] = [''kernel'', ''kernel_1'', ''kernel_2'']"
proof -
  have "unique_names bs jit ! i = returned_name (bs ! i) (count_list (take i bs) (bs ! i))"
    if "i < length bs" for i
    using unique_names_nth_fresh [OF assms that] .
  moreover have "map (\<lambda>n. name_after ''kernel'' n) [0, 1, 2] =
      [''kernel'', ''kernel_1'', ''kernel_2'']"
    by (simp add: name_after_def to_string_small)
  ultimately show ?thesis using empty_table_evaluation(1) [OF assms] by blast
qed

theorem unique_names_sequence_witness:
  "existing_functions fresh_engine = Map.empty \<and>
   unique_names [''f'', ''g'', ''f'', ''f''] fresh_engine ! 3 = ''f_3'' \<and>
   unique_names [''kernel'', ''kernel'', ''kernel'', ''other''] fresh_engine =
     [''kernel'', ''kernel_2'', ''kernel_3'', ''other'']"
proof -
  have e: "existing_functions fresh_engine = Map.empty" by (simp add: fresh_engine_def)
  note w = unique_names_sequence [OF e, of "[''f'', ''g'', ''f'', ''f'']"]
  have l: "3 < length [''f'', ''g'', ''f'', ''f'']" by simp
  from w l have "unique_names [''f'', ''g'', ''f'', ''f''] fresh_engine ! 3 =
      returned_name ([''f'', ''g'', ''f'', ''f''] ! 3)
        (count_list (take 3 [''f'', ''g'', ''f'', ''f'']) ([''f'', ''g'', ''f'', ''f''] ! 3))"
    by blast
  also have "\<dots> = ''f_3''" by (simp add: returned_name_def to_string_small)
  finally show ?thesis using e w by blast
qed

text \<open>
  Claim C10 does not hold of the code in the names it gives: the second call with
  \<open>kernel\<close> returns \<open>kernel_2\<close>, not \<open>kernel_1\<close>, so the calls \<open>kernel\<close>,
  \<open>kernel\<close>, \<open>kernel_1\<close> return three different names. Names still repeat across
  bases: a first call with the base \<open>kernel_2\<close> returns \<open>kernel_2\<close> again.
\<close>

theorem unique_names_across_bases:
  assumes "existing_functions jit = Map.empty"
  shows "unique_names [''kernel'', ''kernel'', ''kernel_1''] jit =
           [''kernel'', ''kernel_2'', ''kernel_1''] \<and>
         unique_names [''kernel'', ''kernel'', ''kernel_2''] jit =
           [''kernel'', ''kernel_2'', ''kernel_2'']"
  using empty_table_evaluation(2,3) [OF assms] by blast

theorem unique_names_across_bases_witness:
  "existing_functions fresh_engine = Map.empty \<and>
   unique_names [''kernel'', ''kernel'', ''kernel_1''] fresh_engine =
     [''kernel'', ''kernel_2'', ''kernel_1''] \<and>
   unique_names [''kernel'', ''kernel'', ''kernel_2''] fresh_engine =
     [''kernel'', ''kernel_2'', ''kernel_2'']"
proof -
  have e: "existing_functions fresh_engine = Map.empty" by (simp add: fresh_engine_def)
  from unique_names_across_bases [OF e] e show ?thesis by blast
qed

subsection \<open>The engine of the example host\<close>

lemma registerIntrinsics_linux_host:
  "registerIntrinsics linux_host Map.empty {} =
     Inr ([''log10f'' \<mapsto> 100, ''expf'' \<mapsto> 108, ''nnc_aten_conv2d'' \<mapsto> 200,
           ''DispatchParallel'' \<mapsto> 300], {''log10f'', ''expf''})"
  by (auto simp add: registerIntrinsics_def linux_host_def SymbolMap_insert_def entry_def
      JITDylib_define_def)

lemma PytorchLLVMJIT_new_linux_host:
  "PytorchLLVMJIT_new linux_host None None None = Inr fresh_engine"
proof -
  have g: "GetForCurrentProcess linux_host = Some [''malloc'' \<mapsto> 4096]"
    by (simp add: linux_host_def)
  have t: "TT (makeTargetMachineBuilder linux_host None None None) = ''x86_64-unknown-linux-gnu''"
    by (simp add: makeTargetMachineBuilder_def makeJTMBFromHost_def JTMB_new_def setCPU_def
        addFeatures_def linux_host_def)
  have c: "createTargetMachine linux_host J \<longleftrightarrow> TT J = ''x86_64-unknown-linux-gnu'' \<or> TT J = ''aarch64-unknown-linux-gnu''"
    "createLLJIT linux_host J" for J
    by (simp_all add: linux_host_def)
  show ?thesis
    by (simp add: PytorchLLVMJIT_new_def PytorchLLVMJITImpl_new_def g t c
        registerIntrinsics_linux_host fresh_engine_def)
qed

subsection \<open>The cache key\<close>

text \<open>
  Claim C3. The key is the three labels, each followed by its field or by nothing when
  the field is absent, with nothing else in between; so an absent field and an empty
  one give the same key, in each of the three positions.
\<close>

theorem getCacheKey_encoding:
  "getCacheKey triple cpu attrs = spec_key triple cpu attrs \<and>
   getCacheKey (Some '''') cpu attrs = getCacheKey None cpu attrs \<and>
   getCacheKey triple (Some '''') attrs = getCacheKey triple None attrs \<and>
   getCacheKey triple cpu (Some '''') = getCacheKey triple cpu None \<and>
   getCacheKey (Some ''x86_64'') None (Some ''+avx2'') = ''triple:x86_64cpu:attrs:+avx2''"
  by (simp add: getCacheKey_def spec_key_def or_empty_def split: option.splits)

subsection \<open>The cache of engines\<close>

lemma cache_inv_init: "cache_inv cache_init"
  by (simp add: cache_inv_def cache_init_def)

lemma get_instance_hit:
  "jit_cache st (cache_key d) = Some p \<Longrightarrow> get_instance ex d st = (Inr p, st)"
  by (cases d) (simp add: get_instance_def getPytorchLLVMJITInstance_def cache_key_def)

lemma get_instance_miss:
  assumes "jit_cache st (cache_key d) = None" and "get_instance ex d st = (r, st')"
  shows "(\<exists>e. r = Inl e \<and> st' = st) \<or>
         (r = Inr (length (engines st)) \<and>
          length (engines st') = Suc (length (engines st)) \<and>
          jit_cache st' = (jit_cache st)(cache_key d \<mapsto> length (engines st)))"
  using assms
  by (cases d)
     (auto simp: get_instance_def getPytorchLLVMJITInstance_def cache_key_def
        split: sum.splits)

lemma get_instance_inv:
  assumes "cache_inv st" and "get_instance ex d st = (r, st')"
  shows "cache_inv st'"
proof (cases "jit_cache st (cache_key d)")
  case (Some p)
  with assms get_instance_hit [of st d p ex] show ?thesis by simp
next
  case None
  from get_instance_miss [OF None assms(2)] show ?thesis
  proof
    assume "\<exists>e. r = Inl e \<and> st' = st"
    with assms(1) show ?thesis by auto
  next
    assume new: "r = Inr (length (engines st)) \<and>
          length (engines st') = Suc (length (engines st)) \<and>
          jit_cache st' = (jit_cache st)(cache_key d \<mapsto> length (engines st))"
    from assms(1) have b: "\<And>k p. jit_cache st k = Some p \<Longrightarrow> p < length (engines st)"
      and i: "\<And>k k' p. jit_cache st k = Some p \<Longrightarrow> jit_cache st k' = Some p \<Longrightarrow> k = k'"
      by (auto simp: cache_inv_def)
    show ?thesis
      unfolding cache_inv_def
    proof (intro conjI allI impI)
      fix k p assume "jit_cache st' k = Some p"
      with new b show "p < length (engines st')"
        by (cases "k = cache_key d") (auto simp: less_Suc_eq)
    next
      fix k k' p assume "jit_cache st' k = Some p" "jit_cache st' k' = Some p"
      with new b i show "k = k'"
        by (cases "k = cache_key d"; cases "k' = cache_key d") (auto dest: b)
    qed
  qed
qed

lemma get_instance_keeps:
  assumes "jit_cache st k = Some p" and "get_instance ex d st = (r, st')"
  shows "jit_cache st' k = Some p"
proof (cases "jit_cache st (cache_key d)")
  case (Some q)
  with assms get_instance_hit [of st d q ex] show ?thesis by simp
next
  case None
  with assms(1) have "k \<noteq> cache_key d" by auto
  with get_instance_miss [OF None assms(2)] assms(1) show ?thesis by auto
qed

lemma get_instance_result:
  assumes "get_instance ex d st = (Inr p, st')"
  shows "jit_cache st' (cache_key d) = Some p"
proof (cases "jit_cache st (cache_key d)")
  case (Some q)
  with assms get_instance_hit [of st d q ex] show ?thesis by simp
next
  case None
  from get_instance_miss [OF None assms] show ?thesis by auto
qed

lemma get_instance_grows:
  assumes "get_instance ex d st = (r, st')"
  shows "length (engines st) \<le> length (engines st')"
proof (cases "jit_cache st (cache_key d)")
  case (Some q)
  with assms get_instance_hit [of st d q ex] show ?thesis by simp
next
  case None
  from get_instance_miss [OF None assms] show ?thesis by auto
qed

lemma get_instance_fresh:
  assumes "jit_cache st k = None" and "get_instance ex d st = (r, st')"
  shows "jit_cache st' k = None \<or> (jit_cache st' k = Some (length (engines st)) \<and> k = cache_key d)"
proof (cases "jit_cache st (cache_key d)")
  case (Some q)
  with assms get_instance_hit [of st d q ex] show ?thesis by simp
next
  case None
  from get_instance_miss [OF None assms(2)] assms(1) show ?thesis
    by (cases "k = cache_key d") auto
qed

lemma get_instances_length: "length (get_instances ex ds st) = length ds"
  by (induction ds arbitrary: st) (auto split: prod.splits)

lemma get_instances_hit:
  "jit_cache st (cache_key (ds ! i)) = Some p \<Longrightarrow> i < length ds \<Longrightarrow>
   get_instances ex ds st ! i = Inr p"
proof (induction ds arbitrary: st i)
  case Nil
  then show ?case by simp
next
  case (Cons d ds)
  obtain r st' where step: "get_instance ex d st = (r, st')"
    by (cases "get_instance ex d st")
  show ?case
  proof (cases i)
    case 0
    with Cons.prems get_instance_hit [of st d p ex] show ?thesis by simp
  next
    case (Suc k)
    with Cons.prems have "jit_cache st (cache_key (ds ! k)) = Some p" "k < length ds"
      by simp_all
    from Cons.IH [OF get_instance_keeps [OF this(1) step] this(2)] Suc step
    show ?thesis by simp
  qed
qed

lemma get_instances_origin:
  "cache_inv st \<Longrightarrow> i < length ds \<Longrightarrow> get_instances ex ds st ! i = Inr p \<Longrightarrow>
   jit_cache st (cache_key (ds ! i)) = Some p \<or>
   (jit_cache st (cache_key (ds ! i)) = None \<and> length (engines st) \<le> p)"
proof (induction ds arbitrary: st i)
  case Nil
  then show ?case by simp
next
  case (Cons d ds)
  obtain r st' where step: "get_instance ex d st = (r, st')"
    by (cases "get_instance ex d st")
  show ?case
  proof (cases i)
    case 0
    with Cons.prems step have r: "r = Inr p" by simp
    show ?thesis
    proof (cases "jit_cache st (cache_key d)")
      case None
      from get_instance_miss [OF None step] r None 0 show ?thesis by auto
    next
      case (Some q)
      with step r get_instance_hit [of st d q ex] 0 show ?thesis by simp
    qed
  next
    case (Suc k)
    let ?key = "cache_key (ds ! k)"
    from Suc Cons.prems step have k: "k < length ds"
      and res: "get_instances ex ds st' ! k = Inr p" by simp_all
    note inv' = get_instance_inv [OF Cons.prems(1) step]
    note IH = Cons.IH [OF inv' k res]
    note grows = get_instance_grows [OF step]
    show ?thesis
    proof (cases "jit_cache st ?key")
      case (Some q)
      from get_instance_keeps [OF Some step] IH Some Suc show ?thesis by auto
    next
      case None
      from get_instance_fresh [OF None step] IH grows None Suc show ?thesis by auto
    qed
  qed
qed

text \<open>
  Claim C1, as stated, fails: the descriptor without any field and the descriptor whose
  triple is the empty string differ in a field, and the second request gets the engine
  of the first.
\<close>

theorem cache_identity_counterexample:
  "(None, None, None) \<noteq> (Some '''', None, None :: string option) \<and>
   get_instances linux_host [(None, None, None), (Some '''', None, None)] cache_init =
     [Inr 0, Inr 0]"
  by (simp add: get_instance_def getPytorchLLVMJITInstance_def getCacheKey_def cache_init_def
      PytorchLLVMJIT_new_linux_host)


text \<open>
  Claim C1, amended. In a sequence of requests to the cache of a process, once a request
  has returned an engine, a later request returns that same engine exactly when its
  descriptor has the same key; with another key it returns another engine or fails.
  Descriptors equal in every field have equal keys.
\<close>

theorem cache_identity:
  assumes "i < j" and "j < length ds"
    and "get_instances ex ds cache_init ! i = Inr p"
  shows "get_instances ex ds cache_init ! j = Inr p \<longleftrightarrow>
         cache_key (ds ! i) = cache_key (ds ! j)"
proof -
  have gen: "cache_inv st \<Longrightarrow> i < j \<Longrightarrow> j < length ds \<Longrightarrow>
      get_instances ex ds st ! i = Inr p \<Longrightarrow>
      (get_instances ex ds st ! j = Inr p \<longleftrightarrow> cache_key (ds ! i) = cache_key (ds ! j))"
    for st
  proof (induction ds arbitrary: st i j)
    case Nil
    then show ?case by simp
  next
    case (Cons d ds)
    obtain r st' where step: "get_instance ex d st = (r, st')"
      by (cases "get_instance ex d st")
    note inv' = get_instance_inv [OF Cons.prems(1) step]
    from Cons.prems obtain j' where j: "j = Suc j'" and j': "j' < length ds"
      by (cases j) auto
    show ?case
    proof (cases i)
      case (Suc i')
      with Cons.prems j step have "i' < j'" "get_instances ex ds st' ! i' = Inr p"
        by simp_all
      from Cons.IH [OF inv' this(1) j' this(2)] Suc j step show ?thesis by simp
    next
      case 0
      with Cons.prems step have r: "r = Inr p" by simp
      from get_instance_result step r have here: "jit_cache st' (cache_key d) = Some p"
        by blast
      show ?thesis
      proof (cases "cache_key (ds ! j') = cache_key d")
        case True
        with here get_instances_hit [of st' ds j' p ex] j' 0 j step show ?thesis by simp
      next
        case False
        have "get_instances ex ds st' ! j' \<noteq> Inr p"
        proof
          assume "get_instances ex ds st' ! j' = Inr p"
          from get_instances_origin [OF inv' j' this] show False
          proof
            assume "jit_cache st' (cache_key (ds ! j')) = Some p"
            with here inv' False show False by (auto simp: cache_inv_def)
          next
            assume "jit_cache st' (cache_key (ds ! j')) = None \<and> length (engines st') \<le> p"
            moreover from here inv' have "p < length (engines st')"
              by (auto simp: cache_inv_def)
            ultimately show False by simp
          qed
        qed
        with False 0 j step show ?thesis by auto
      qed
    qed
  qed
  from gen [OF cache_inv_init assms] show ?thesis .
qed


theorem cache_identity_witness:
  "(0::nat) < 1 \<and> 1 < length [(None, None, None), (None, None, None :: string option)] \<and>
   get_instances linux_host [(None, None, None), (None, None, None)] cache_init ! 0 = Inr 0 \<and>
   get_instances linux_host [(None, None, None), (None, None, None)] cache_init ! 1 = Inr 0"
proof -
  let ?ds = "[(None, None, None), (None, None, None :: string option)]"
  have z: "(0::nat) < 1" by simp
  have l: "1 < length ?ds" by simp
  have r: "get_instances linux_host ?ds cache_init ! 0 = Inr 0"
    by (simp add: get_instance_def getPytorchLLVMJITInstance_def getCacheKey_def
        cache_init_def PytorchLLVMJIT_new_linux_host)
  have k: "cache_key (?ds ! 0) = cache_key (?ds ! 1)" by simp
  from cache_identity [OF z l r] k z l r show ?thesis by blast
qed

subsection \<open>Unique names in a process\<close>

lemma PytorchLLVMJIT_new_linux_host_cpu:
  "PytorchLLVMJIT_new linux_host None cpu None =
     Inr (fresh_engine\<lparr>impl := (impl fresh_engine)
            \<lparr>TM := makeTargetMachineBuilder linux_host None cpu None\<rparr>\<rparr>)"
proof -
  have g: "GetForCurrentProcess linux_host = Some [''malloc'' \<mapsto> 4096]"
    by (simp add: linux_host_def)
  have t: "TT (makeTargetMachineBuilder linux_host None cpu None) = ''x86_64-unknown-linux-gnu''"
    by (simp add: makeTargetMachineBuilder_def makeJTMBFromHost_def JTMB_new_def setCPU_def
        addFeatures_def linux_host_def)
  have c: "createTargetMachine linux_host J \<longleftrightarrow>
      TT J = ''x86_64-unknown-linux-gnu'' \<or> TT J = ''aarch64-unknown-linux-gnu''"
    "createLLJIT linux_host J" for J
    by (simp_all add: linux_host_def)
  show ?thesis
    by (simp add: PytorchLLVMJIT_new_def PytorchLLVMJITImpl_new_def g t c
        registerIntrinsics_linux_host fresh_engine_def)
qed

lemma count_list_replicate_same: "count_list (replicate n x) x = n"
  by (induction n) auto

lemma mod_eq_close:
  fixes a b N :: nat
  assumes "a \<le> b" and "b - a < N" and "a mod N = b mod N"
  shows "a = b"
proof -
  from assms(1,3) have "N dvd b - a" by (metis mod_eq_dvd_iff_nat)
  with assms(2) have "b - a = 0" by (metis dvd_imp_le zero_less_diff diff_is_0_eq neq0_conv)
  with assms(1) show ?thesis by simp
qed

lemma returned_name_inj:
  assumes "m \<le> 4294967296" and "n \<le> 4294967296"
    and "returned_name b m = returned_name b n"
  shows "m = n"
proof (cases "m = 0 \<or> n = 0")
  case True
  with assms(3) show ?thesis by (auto simp: returned_name_def split: if_splits)
next
  case False
  with assms(3) have "to_string (sint (word_of_nat (m + 1) :: 32 word)) =
      to_string (sint (word_of_nat (n + 1) :: 32 word))"
    by (simp add: returned_name_def)
  then have "sint (word_of_nat (m + 1) :: 32 word) = sint (word_of_nat (n + 1) :: 32 word)"
    by (rule to_string_inj)
  then have "(word_of_nat (m + 1) :: 32 word) = word_of_nat (n + 1)"
    by (rule signed_word_eqI)
  then have "take_bit LENGTH(32) (m + 1) = take_bit LENGTH(32) (n + 1)"
    by (simp only: word_of_nat_eq_iff)
  then have "(m + 1) mod 2 ^ 32 = (n + 1) mod 2 ^ 32"
    by (simp only: take_bit_eq_mod len_num1 len_bit0 mult_2 one_add_one numeral_Bit0 [symmetric])
  moreover have "(2::nat) ^ 32 = 4294967296" by simp
  ultimately have eq: "(m + 1) mod 4294967296 = (n + 1) mod 4294967296"
    by (simp only:)
  show ?thesis
  proof (cases "m \<le> n")
    case True
    with assms(1,2) False have "m + 1 \<le> n + 1" "(n + 1) - (m + 1) < 4294967296" by auto
    from mod_eq_close [OF this eq] show ?thesis by simp
  next
    case m: False
    with assms(1,2) False have "n + 1 \<le> m + 1" "(m + 1) - (n + 1) < 4294967296" by auto
    from mod_eq_close [OF this eq [symmetric]] show ?thesis by simp
  qed
qed

lemma count_list_take_less:
  assumes "j < length bs"
  shows "count_list (take j bs) (bs ! j) < count_list bs (bs ! j)"
proof -
  from assms have "bs = take j bs @ bs ! j # drop (Suc j) bs"
    by (rule id_take_nth_drop)
  then have "count_list bs (bs ! j) =
      count_list (take j bs @ bs ! j # drop (Suc j) bs) (bs ! j)" by simp
  then show ?thesis by simp
qed

lemma count_list_take_mono:
  assumes "i < j" and "j < length bs" and "bs ! i = bs ! j"
  shows "count_list (take i bs) (bs ! i) < count_list (take j bs) (bs ! i)"
proof -
  from assms have i: "i < length (take j bs)" by simp
  from assms have "take i bs = take i (take j bs)" by (simp add: min_def)
  moreover from assms have "bs ! i = take j bs ! i" by simp
  ultimately show ?thesis using count_list_take_less [OF i] by simp
qed

text \<open>
  Claim C8, as stated, fails in two ways. The table of names belongs to the engine, and
  a process has one engine per key of the cache: the engines of two descriptors both
  return \<open>kernel\<close> for their first call with that base. And on one engine the counter
  wraps: of \<open>2^32 + 2\<close> calls with one base, the last returns the name of the second.
\<close>

theorem unique_names_distinct_counterexample:
  "get_instances linux_host [(None, None, None), (None, Some ''haswell'', None)] cache_init =
     [Inr 0, Inr 1] \<and>
   instance_unique_names linux_host
     [((None, None, None), ''kernel''), ((None, Some ''haswell'', None), ''kernel'')]
     cache_init = [Inr ''kernel'', Inr ''kernel''] \<and>
   unique_names (replicate 4294967298 ''kernel'') fresh_engine ! 1 =
     unique_names (replicate 4294967298 ''kernel'') fresh_engine ! 4294967297"
proof -
  have two: "get_instances linux_host [(None, None, None), (None, Some ''haswell'', None)]
      cache_init = [Inr 0, Inr 1]"
    by (simp add: get_instance_def getPytorchLLVMJITInstance_def getCacheKey_def
        cache_init_def PytorchLLVMJIT_new_linux_host_cpu)
  have names: "instance_unique_names linux_host
     [((None, None, None), ''kernel''), ((None, Some ''haswell'', None), ''kernel'')]
     cache_init = [Inr ''kernel'', Inr ''kernel'']"
    by (simp add: instance_unique_name_def get_instance_def getPytorchLLVMJITInstance_def
        getCacheKey_def cache_init_def PytorchLLVMJIT_new_linux_host_cpu
        getUniqueFunctionName_def fresh_engine_def Let_def)
  have e: "existing_functions fresh_engine = Map.empty" by (simp add: fresh_engine_def)
  have "unique_names (replicate 4294967298 ''kernel'') fresh_engine ! 1 =
      returned_name ''kernel'' 1"
    using unique_names_nth_fresh [OF e, of 1 "replicate 4294967298 ''kernel''"]
    by (simp add: count_list_replicate_same)
  moreover have "unique_names (replicate 4294967298 ''kernel'') fresh_engine ! 4294967297 =
      returned_name ''kernel'' 4294967297"
    using unique_names_nth_fresh [OF e, of 4294967297 "replicate 4294967298 ''kernel''"]
    by (simp add: count_list_replicate_same)
  moreover have "returned_name ''kernel'' 1 = returned_name ''kernel'' 4294967297"
    by (simp add: returned_name_def)
  ultimately show ?thesis using two names by simp
qed

text \<open>
  Claim C8, amended. On one engine, starting from the empty table it has after
  construction, two calls with the same base return different names, whatever other
  calls come before, between or after them, as long as the base has no more than
  \<open>2^32 + 1\<close> calls in all.
\<close>

theorem unique_names_distinct:
  assumes "existing_functions jit = Map.empty"
    and "i < j" and "j < length bs" and "bs ! i = bs ! j"
    and "count_list bs (bs ! i) \<le> 4294967297"
  shows "unique_names bs jit ! i \<noteq> unique_names bs jit ! j"
proof -
  let ?b = "bs ! i"
  from assms have i: "i < length bs" by simp
  have less: "count_list (take i bs) ?b < count_list (take j bs) ?b"
    using assms(2,3,4) by (rule count_list_take_mono)
  from count_list_take_less [OF assms(3)] assms(4,5)
  have bj: "count_list (take j bs) ?b \<le> 4294967296" by simp
  with less have bi: "count_list (take i bs) ?b \<le> 4294967296" by simp
  have "returned_name ?b (count_list (take i bs) ?b) \<noteq>
      returned_name ?b (count_list (take j bs) ?b)"
  proof
    assume "returned_name ?b (count_list (take i bs) ?b) =
      returned_name ?b (count_list (take j bs) ?b)"
    from returned_name_inj [OF bi bj this] less show False by simp
  qed
  with unique_names_nth_fresh [OF assms(1) i] unique_names_nth_fresh [OF assms(1) assms(3)]
    assms(4)
  show ?thesis by simp
qed

theorem unique_names_distinct_witness:
  "existing_functions fresh_engine = Map.empty \<and> (0::nat) < 2 \<and>
   2 < length [''f'', ''g'', ''f''] \<and> [''f'', ''g'', ''f''] ! 0 = [''f'', ''g'', ''f''] ! 2 \<and>
   count_list [''f'', ''g'', ''f''] ([''f'', ''g'', ''f''] ! 0) \<le> 4294967297 \<and>
   unique_names [''f'', ''g'', ''f''] fresh_engine ! 0 \<noteq>
   unique_names [''f'', ''g'', ''f''] fresh_engine ! 2"
proof -
  have e: "existing_functions fresh_engine = Map.empty" by (simp add: fresh_engine_def)
  have l: "2 < length [''f'', ''g'', ''f'']" by simp
  have b: "[''f'', ''g'', ''f''] ! 0 = [''f'', ''g'', ''f''] ! 2" by simp
  have z: "(0::nat) < 2" by simp
  have c: "count_list [''f'', ''g'', ''f''] ([''f'', ''g'', ''f''] ! 0) \<le> 4294967297" by simp
  from unique_names_distinct [OF e z l b c] e l b z c show ?thesis by blast
qed

subsection \<open>The target machine builder\<close>

text \<open>
  Claim C2, as stated, fails: with a triple supplied and neither CPU nor features, the
  builder's CPU and features are left unset, while the host's CPU is \<open>skylake\<close> and
  its detected features are \<open>+avx2\<close> and \<open>-sse4a\<close>.
\<close>

theorem target_resolution_counterexample:
  "makeTargetMachineBuilder linux_host (Some ''aarch64-unknown-linux-gnu'') None None =
     \<lparr>TT = ''aarch64-unknown-linux-gnu'', CPU = None, Features = [],
      CodeGenOptLevel = Some Default, AllowFPOpFusion = Some Fast\<rparr> \<and>
   getHostCPUName linux_host = ''skylake'' \<and>
   add_all linux_host (getHostSubtargetFeatures linux_host) = [''+avx2'', ''-sse4a'']"
  by (simp add: makeTargetMachineBuilder_def makeJTMBFromTriple_def JTMB_new_def
      linux_host_def getHostSubtargetFeatures_def add_all_def add_feature_def Let_def)

text \<open>
  Claim C2, amended. The triple is the supplied one, or the host's when absent. Without
  a triple, the CPU is the supplied one or the host's CPU name, and the features are the
  parsed feature string or the host-detected features. With a triple, the CPU is set
  only when supplied and the features are added only when supplied.
\<close>

theorem target_resolution:
  "TT (makeTargetMachineBuilder ex triple cpu attrs) =
     (case triple of None \<Rightarrow> getProcessTriple ex | Some t \<Rightarrow> t) \<and>
   CPU (makeTargetMachineBuilder ex None cpu attrs) =
     Some (case cpu of None \<Rightarrow> getHostCPUName ex | Some c \<Rightarrow> c) \<and>
   Features (makeTargetMachineBuilder ex None cpu attrs) =
     (case attrs of None \<Rightarrow> add_all ex (getHostSubtargetFeatures ex)
      | Some a \<Rightarrow> add_all ex (Split ex a)) \<and>
   CPU (makeTargetMachineBuilder ex (Some t) cpu attrs) = cpu \<and>
   Features (makeTargetMachineBuilder ex (Some t) cpu attrs) =
     (case attrs of None \<Rightarrow> [] | Some a \<Rightarrow> add_all ex (Split ex a))"
  by (cases triple; cases cpu; cases attrs)
     (simp_all add: makeTargetMachineBuilder_def makeJTMBFromTriple_def makeJTMBFromHost_def
        JTMB_new_def setCPU_def addFeatures_def add_all_def Let_def)

subsection \<open>Registration of the intrinsics\<close>

lemma map_of_SymbolMap_insert:
  "map_of (SymbolMap_insert kv acc) = map_of (acc @ [kv])"
proof (cases "fst kv \<in> fst ` set acc")
  case True
  then obtain v where "map_of acc (fst kv) = Some v"
    by (metis domD dom_map_of_conv_image_fst)
  then have "map_of (acc @ [kv]) = map_of acc"
    by (cases kv) (auto simp: map_add_def fun_eq_iff split: option.splits)
  with True show ?thesis by (simp add: SymbolMap_insert_def)
next
  case False
  then show ?thesis by (simp add: SymbolMap_insert_def)
qed

lemma intrinsics_loop_result:
  "intrinsics_loop ex syms (acc, I) = (acc', I') \<Longrightarrow>
   map_of acc' = map_of (acc @ map (\<lambda>s. entry ex (fst s) (snd s)) syms) \<and>
   I' = I \<union> fst ` set syms"
proof (induction syms arbitrary: acc I)
  case Nil
  then show ?case by simp
next
  case (Cons s syms)
  let ?kv = "entry ex (fst s) (snd s)"
  from Cons.prems have
    "intrinsics_loop ex syms (SymbolMap_insert ?kv acc, insert (fst s) I) = (acc', I')"
    by simp
  from Cons.IH [OF this] have
    m: "map_of acc' = map_of (SymbolMap_insert ?kv acc @ map (\<lambda>s. entry ex (fst s) (snd s)) syms)"
    and i: "I' = insert (fst s) I \<union> fst ` set syms" by simp_all
  from m have "map_of acc' = map_of (acc @ map (\<lambda>s. entry ex (fst s) (snd s)) (s # syms))"
    by (simp add: map_of_SymbolMap_insert [simplified])
  with i show ?case by auto
qed

lemma JITDylib_define_Inr:
  "JITDylib_define symbols D = Inr D' \<longleftrightarrow>
   (\<forall>kv\<in>set symbols. D (fst kv) = None) \<and> D' = D ++ map_of symbols"
proof (cases "filter (\<lambda>kv. D (fst kv) \<noteq> None) symbols")
  case Nil
  then have "\<forall>kv\<in>set symbols. D (fst kv) = None"
    by (simp add: filter_empty_conv)
  with Nil show ?thesis by (auto simp: JITDylib_define_def)
next
  case (Cons kv rest)
  then have "kv \<in> set (filter (\<lambda>kv. D (fst kv) \<noteq> None) symbols)" by simp
  then have "kv \<in> set symbols" "D (fst kv) \<noteq> None" by simp_all
  with Cons show ?thesis by (auto simp: JITDylib_define_def)
qed

lemma JITDylib_define_cases:
  "(\<exists>D'. JITDylib_define symbols D = Inr D') \<or>
   (\<exists>n. JITDylib_define symbols D = Inl (DuplicateDefinition n))"
  by (simp add: JITDylib_define_def split: list.splits)

lemma registry_loop_Inr:
  "registry_loop ex kvs D = Inr D' \<longleftrightarrow>
   distinct (map (\<lambda>kv. Mangle ex (fst kv)) kvs) \<and>
   (\<forall>kv\<in>set kvs. D (Mangle ex (fst kv)) = None) \<and>
   D' = map_of (map (\<lambda>kv. entry ex (fst kv) (snd kv)) kvs) ++ D"
proof (induction kvs arbitrary: D)
  case Nil
  then show ?case by auto
next
  case (Cons kv kvs)
  let ?k = "Mangle ex (fst kv)"
  show ?case
  proof (cases "D ?k")
    case (Some a)
    then have "\<not> (\<exists>J. JITDylib_define [entry ex (fst kv) (snd kv)] D = Inr J)"
      by (simp add: JITDylib_define_Inr entry_def)
    then have "registry_loop ex (kv # kvs) D \<noteq> Inr D'"
      by (auto split: sum.splits)
    with Some show ?thesis by auto
  next
    case None
    let ?JD1 = "D(?k \<mapsto> snd kv)"
    from None have d: "JITDylib_define [entry ex (fst kv) (snd kv)] D = Inr ?JD1"
      by (simp add: JITDylib_define_Inr entry_def)
    have fresh: "(\<forall>x\<in>set kvs. ?JD1 (Mangle ex (fst x)) = None) \<longleftrightarrow>
        ?k \<notin> (\<lambda>kv. Mangle ex (fst kv)) ` set kvs \<and>
        (\<forall>x\<in>set kvs. D (Mangle ex (fst x)) = None)"
      by (auto simp: image_iff)
    have eq: "map_of (map (\<lambda>kv. entry ex (fst kv) (snd kv)) kvs) ++ ?JD1 =
        map_of (map (\<lambda>kv. entry ex (fst kv) (snd kv)) (kv # kvs)) ++ D"
      if "?k \<notin> (\<lambda>kv. Mangle ex (fst kv)) ` set kvs"
      using None by (auto simp: fun_eq_iff map_add_def entry_def split: option.splits)
    from d have step: "registry_loop ex (kv # kvs) D = registry_loop ex kvs ?JD1" by simp
    have "registry_loop ex (kv # kvs) D = Inr D' \<longleftrightarrow>
        distinct (map (\<lambda>kv. Mangle ex (fst kv)) kvs) \<and>
        (?k \<notin> (\<lambda>kv. Mangle ex (fst kv)) ` set kvs \<and>
         (\<forall>x\<in>set kvs. D (Mangle ex (fst x)) = None)) \<and>
        D' = map_of (map (\<lambda>kv. entry ex (fst kv) (snd kv)) kvs) ++ ?JD1"
      unfolding step Cons.IH [of ?JD1] fresh ..
    also have "\<dots> \<longleftrightarrow>
        distinct (map (\<lambda>kv. Mangle ex (fst kv)) kvs) \<and>
        (?k \<notin> (\<lambda>kv. Mangle ex (fst kv)) ` set kvs \<and>
         (\<forall>x\<in>set kvs. D (Mangle ex (fst x)) = None)) \<and>
        D' = map_of (map (\<lambda>kv. entry ex (fst kv) (snd kv)) (kv # kvs)) ++ D"
    proof (cases "?k \<in> (\<lambda>kv. Mangle ex (fst kv)) ` set kvs")
      case True
      then show ?thesis by (simp only: simp_thms)
    next
      case False
      from eq [OF False] show ?thesis by (simp only:)
    qed
    also have "\<dots> \<longleftrightarrow>
        distinct (map (\<lambda>kv. Mangle ex (fst kv)) (kv # kvs)) \<and>
        (\<forall>x\<in>set (kv # kvs). D (Mangle ex (fst x)) = None) \<and>
        D' = map_of (map (\<lambda>kv. entry ex (fst kv) (snd kv)) (kv # kvs)) ++ D"
      using None by auto
    finally show ?thesis .
  qed
qed


lemma registry_loop_append:
  "registry_loop ex (kvs @ [kv]) D =
     (case registry_loop ex kvs D of
        Inl e \<Rightarrow> Inl e
      | Inr D' \<Rightarrow> JITDylib_define [entry ex (fst kv) (snd kv)] D')"
  by (induction kvs arbitrary: D) (auto split: sum.splits)

lemma registry_loop_cases:
  "(\<exists>D'. registry_loop ex kvs D = Inr D') \<or>
   (\<exists>n. registry_loop ex kvs D = Inl (DuplicateDefinition n))"
proof (induction kvs arbitrary: D)
  case Nil
  then show ?case by simp
next
  case (Cons kv kvs)
  from JITDylib_define_cases [of "[entry ex (fst kv) (snd kv)]" D] show ?case
  proof
    assume "\<exists>D'. JITDylib_define [entry ex (fst kv) (snd kv)] D = Inr D'"
    then obtain D1 where "JITDylib_define [entry ex (fst kv) (snd kv)] D = Inr D1" ..
    with Cons.IH [of D1] show ?thesis by simp
  next
    assume "\<exists>n. JITDylib_define [entry ex (fst kv) (snd kv)] D = Inl (DuplicateDefinition n)"
    then show ?thesis by auto
  qed
qed

lemma registerIntrinsics_unfold:
  "registerIntrinsics ex Map.empty I =
     (case registry_loop ex
             (getNNCFunctionRegistry ex @ [(''DispatchParallel'', DispatchParallel ex)])
             (map_of (static_entries ex)) of
        Inl e \<Rightarrow> Inl e
      | Inr D \<Rightarrow> Inr (D, I \<union> fst ` set (getIntrinsicSymbols ex)))"
proof -
  obtain symbols I1 where
    loop: "intrinsics_loop ex (getIntrinsicSymbols ex) ([], I) = (symbols, I1)"
    by (cases "intrinsics_loop ex (getIntrinsicSymbols ex) ([], I)")
  from intrinsics_loop_result [OF loop]
  have m: "map_of symbols = map_of (static_entries ex)"
    and i: "I1 = I \<union> fst ` set (getIntrinsicSymbols ex)"
    by (simp_all add: static_entries_def)
  have d: "JITDylib_define symbols Map.empty = Inr (map_of (static_entries ex))"
    by (simp add: JITDylib_define_Inr m)
  show ?thesis
    by (simp add: registerIntrinsics_def loop d i registry_loop_append split: sum.splits)
qed

lemma late_names_fresh_iff:
  "late_names_fresh ex \<longleftrightarrow>
   distinct (map (\<lambda>kv. Mangle ex (fst kv))
      (getNNCFunctionRegistry ex @ [(''DispatchParallel'', DispatchParallel ex)])) \<and>
   (\<forall>kv\<in>set (getNNCFunctionRegistry ex @ [(''DispatchParallel'', DispatchParallel ex)]).
      map_of (static_entries ex) (Mangle ex (fst kv)) = None)"
proof -
  have 1: "map fst (late_entries ex) = map (\<lambda>kv. Mangle ex (fst kv))
      (getNNCFunctionRegistry ex @ [(''DispatchParallel'', DispatchParallel ex)])"
    by (simp add: late_entries_def entry_def comp_def)
  have 2: "map_of (static_entries ex) n = None \<longleftrightarrow> n \<notin> set (map fst (static_entries ex))" for n
    by (simp add: map_of_eq_None_iff)
  show ?thesis
    unfolding late_names_fresh_def 1 2 by (simp add: list_all_iff)
qed

lemma registerIntrinsics_Inr:
  "registerIntrinsics ex Map.empty I = Inr (D, I') \<longleftrightarrow>
   late_names_fresh ex \<and> D = map_of (static_entries ex @ late_entries ex) \<and>
   I' = I \<union> fst ` set (getIntrinsicSymbols ex)"
proof -
  let ?late = "getNNCFunctionRegistry ex @ [(''DispatchParallel'', DispatchParallel ex)]"
  have "registerIntrinsics ex Map.empty I = Inr (D, I') \<longleftrightarrow>
      registry_loop ex ?late (map_of (static_entries ex)) = Inr D \<and>
      I' = I \<union> fst ` set (getIntrinsicSymbols ex)"
    by (auto simp: registerIntrinsics_unfold split: sum.splits)
  also have "\<dots> \<longleftrightarrow> late_names_fresh ex \<and>
      D = map_of (late_entries ex) ++ map_of (static_entries ex) \<and>
      I' = I \<union> fst ` set (getIntrinsicSymbols ex)"
    unfolding registry_loop_Inr late_names_fresh_iff late_entries_def by blast
  finally show ?thesis by simp
qed

text \<open>
  Claim C6. After an engine has been constructed, \<open>hasSymbol\<close> holds of exactly the
  names of the static intrinsic list, and \<open>findSymbol\<close> returns an address for each
  of them.
\<close>

theorem symbols_after_construction:
  assumes "PytorchLLVMJIT_new ex triple cpu attrs = Inr jit"
  shows "(hasSymbol Name jit \<longleftrightarrow> Name \<in> fst ` set (getIntrinsicSymbols ex)) \<and>
         (\<forall>n\<in>fst ` set (getIntrinsicSymbols ex). \<exists>a. findSymbol ex n jit = Inr a)"
proof -
  from assms have
    reg: "registerIntrinsics ex Map.empty {} = Inr (JD (impl jit), intrinsics (impl jit))"
    by (auto simp: PytorchLLVMJIT_new_def PytorchLLVMJITImpl_new_def
        split: sum.splits if_splits option.splits)
  then have D: "JD (impl jit) = map_of (static_entries ex @ late_entries ex)"
    and I: "intrinsics (impl jit) = fst ` set (getIntrinsicSymbols ex)"
    by (simp_all add: registerIntrinsics_Inr)
  have "\<exists>a. findSymbol ex n jit = Inr a" if "n \<in> fst ` set (getIntrinsicSymbols ex)" for n
  proof -
    from that have "Mangle ex n \<in> fst ` set (static_entries ex)"
      by (force simp: static_entries_def entry_def)
    then have "Mangle ex n \<in> dom (map_of (static_entries ex @ late_entries ex))"
      by (simp add: dom_map_of_conv_image_fst)
    then obtain a where "JD (impl jit) (Mangle ex n) = Some a"
      unfolding D by blast
    then show ?thesis by (simp add: findSymbol_def Impl_findSymbol_def)
  qed
  with I show ?thesis by (simp add: hasSymbol_def Impl_hasSymbol_def)
qed


theorem symbols_after_construction_witness:
  "PytorchLLVMJIT_new linux_host None None None = Inr fresh_engine \<and>
   ''expf'' \<in> fst ` set (getIntrinsicSymbols linux_host) \<and>
   hasSymbol ''expf'' fresh_engine \<and> \<not> hasSymbol ''nnc_aten_conv2d'' fresh_engine \<and>
   (\<exists>a. findSymbol linux_host ''expf'' fresh_engine = Inr a)"
proof -
  note w = symbols_after_construction [OF PytorchLLVMJIT_new_linux_host]
  have m: "''expf'' \<in> fst ` set (getIntrinsicSymbols linux_host)"
    by (simp add: linux_host_def)
  have n: "''nnc_aten_conv2d'' \<notin> fst ` set (getIntrinsicSymbols linux_host)"
    by (simp add: linux_host_def)
  from w [of "''expf''"] w [of "''nnc_aten_conv2d''"] m n PytorchLLVMJIT_new_linux_host
  show ?thesis by blast
qed

text \<open>
  Claim C7, as stated, fails in both ways a name can be repeated. Repeated in the static
  list, the name resolves to the address registered first, not last. Present in the
  static list and in the backend registry, the name makes the construction of the
  engine fail with a duplicate definition.
\<close>

theorem registerIntrinsics_last_wins_counterexample:
  "engine_findSymbol host_repeated_intrinsic ''expf'' = Inr 100 \<and>
   engine_findSymbol host_shared_name ''expf'' = Inl (DuplicateDefinition ''expf'')"
proof -
  have r1: "registerIntrinsics host_repeated_intrinsic Map.empty {} =
      Inr ([''expf'' \<mapsto> 100, ''nnc_aten_conv2d'' \<mapsto> 200, ''DispatchParallel'' \<mapsto> 300],
           {''expf''})"
    by (auto simp add: registerIntrinsics_def host_repeated_intrinsic_def linux_host_def
        SymbolMap_insert_def entry_def JITDylib_define_def)
  have r2: "registerIntrinsics host_shared_name Map.empty {} = Inl (DuplicateDefinition ''expf'')"
    by (simp add: registerIntrinsics_def host_shared_name_def linux_host_def
        SymbolMap_insert_def entry_def JITDylib_define_def)
  have m: "Mangle host_repeated_intrinsic ''expf'' = ''expf''"
    by (simp add: host_repeated_intrinsic_def linux_host_def)
  have b1: "createTargetMachine host_repeated_intrinsic
       (makeTargetMachineBuilder host_repeated_intrinsic None None None)"
    "createLLJIT host_repeated_intrinsic J"
    "GetForCurrentProcess host_repeated_intrinsic = Some [''malloc'' \<mapsto> 4096]" for J
    by (simp_all add: makeTargetMachineBuilder_def makeJTMBFromHost_def JTMB_new_def setCPU_def
        addFeatures_def linux_host_def Let_def host_repeated_intrinsic_def)
  have b2: "createTargetMachine host_shared_name
       (makeTargetMachineBuilder host_shared_name None None None)"
    "createLLJIT host_shared_name J"
    "GetForCurrentProcess host_shared_name = Some [''malloc'' \<mapsto> 4096]" for J
    by (simp_all add: makeTargetMachineBuilder_def makeJTMBFromHost_def JTMB_new_def setCPU_def
        addFeatures_def linux_host_def Let_def host_shared_name_def)
  have "engine_findSymbol host_repeated_intrinsic ''expf'' = Inr 100"
    by (simp add: engine_findSymbol_def PytorchLLVMJIT_new_def PytorchLLVMJITImpl_new_def
        b1 r1 findSymbol_def Impl_findSymbol_def m)
  moreover have "engine_findSymbol host_shared_name ''expf'' = Inl (DuplicateDefinition ''expf'')"
    by (simp add: engine_findSymbol_def PytorchLLVMJIT_new_def PytorchLLVMJITImpl_new_def
        b2 r2)
  ultimately show ?thesis by blast
qed

text \<open>
  Claim C7, amended. Registration into a fresh namespace succeeds exactly when the late
  names are fresh; it then binds every registered name to the address of its first
  registration (\<open>map_of\<close> returns the value of the first pair with the key), so a
  name repeated in the static list keeps its first address. Otherwise registration
  fails with a duplicate definition.
\<close>

theorem registerIntrinsics_first_wins:
  "if late_names_fresh ex
   then registerIntrinsics ex Map.empty {} =
          Inr (map_of (static_entries ex @ late_entries ex), fst ` set (getIntrinsicSymbols ex))
   else (\<exists>n. registerIntrinsics ex Map.empty {} = Inl (DuplicateDefinition n))"
proof (cases "late_names_fresh ex")
  case True
  then show ?thesis by (simp add: registerIntrinsics_Inr)
next
  case False
  let ?late = "getNNCFunctionRegistry ex @ [(''DispatchParallel'', DispatchParallel ex)]"
  from False have "\<not> (\<exists>D I'. registerIntrinsics ex Map.empty {} = Inr (D, I'))"
    by (simp add: registerIntrinsics_Inr)
  then have "\<not> (\<exists>D. registry_loop ex ?late (map_of (static_entries ex)) = Inr D)"
    by (auto simp: registerIntrinsics_unfold)
  with registry_loop_cases [of ex ?late "map_of (static_entries ex)"]
  obtain n where "registry_loop ex ?late (map_of (static_entries ex)) = Inl (DuplicateDefinition n)"
    by blast
  then have "registerIntrinsics ex Map.empty {} = Inl (DuplicateDefinition n)"
    by (simp add: registerIntrinsics_unfold)
  with False show ?thesis by auto
qed

theorem registerIntrinsics_first_wins_witness:
  "late_names_fresh linux_host \<and>
   registerIntrinsics linux_host Map.empty {} =
     Inr (map_of (static_entries linux_host @ late_entries linux_host),
          fst ` set (getIntrinsicSymbols linux_host)) \<and>
   \<not> late_names_fresh host_shared_name \<and>
   (\<exists>n. registerIntrinsics host_shared_name Map.empty {} = Inl (DuplicateDefinition n))"
proof -
  have f: "late_names_fresh linux_host"
    by (simp add: late_names_fresh_def late_entries_def static_entries_def entry_def
        linux_host_def)
  have g: "\<not> late_names_fresh host_shared_name"
    by (simp add: late_names_fresh_def late_entries_def static_entries_def entry_def
        linux_host_def host_shared_name_def)
  from registerIntrinsics_first_wins [of linux_host]
    registerIntrinsics_first_wins [of host_shared_name] f g
  show ?thesis by simp
qed


end
